theory Spec2Isabelle
  imports Main
begin

section \<open>Strings\<close>

text \<open>
  A Python \<open>str\<close> is modelled as a \<open>string\<close>, a list of characters with code points
  below 256. The character classes below are the ones Python uses on that range:
  \<open>str.strip\<close>, \<open>int\<close> and the regular expression class \<open>\s\<close> share one notion of
  white space, \<open>str.lower\<close> maps the upper-case letters of ASCII and Latin-1 to their
  lower-case partners and leaves every other character alone.
\<close>

definition is_space :: "char \<Rightarrow> bool" where
  "is_space c \<longleftrightarrow> c \<in> set [CHR 0x09, CHR 0x0A, CHR 0x0B, CHR 0x0C, CHR 0x0D,
     CHR 0x1C, CHR 0x1D, CHR 0x1E, CHR 0x1F, CHR 0x20, CHR 0x85, CHR 0xA0]"

definition py_lower_char :: "char \<Rightarrow> char" where
  "py_lower_char c =
     (let n = (of_char c :: nat) in
      if (65 \<le> n \<and> n \<le> 90) \<or> (192 \<le> n \<and> n \<le> 222 \<and> n \<noteq> 215)
      then char_of (n + 32) else c)"

definition py_lower :: "string \<Rightarrow> string" where
  "py_lower s = map py_lower_char s"

text \<open>\<open>sep.join(parts)\<close>.\<close>

fun py_join :: "string \<Rightarrow> string list \<Rightarrow> string" where
  "py_join sep [] = []"
| "py_join sep [p] = p"
| "py_join sep (p # q # ps) = p @ sep @ py_join sep (q # ps)"

text \<open>The slice \<open>s[i:j]\<close> for \<open>0 \<le> i \<le> j\<close>.\<close>

definition slice :: "'a list \<Rightarrow> nat \<Rightarrow> nat \<Rightarrow> 'a list" where
  "slice s i j = take (j - i) (drop i s)"

section \<open>\<open>utils/validators.py\<close>: \<open>normalize_mac\<close>\<close>

datatype py_error = ValueError string | TypeError string | IndexError string

text \<open>The character class \<open>[.:\-\s]\<close> of the substitution.\<close>

definition is_mac_separator :: "char \<Rightarrow> bool" where
  "is_mac_separator c \<longleftrightarrow> c = CHR ''.'' \<or> c = CHR '':'' \<or> c = CHR ''-'' \<or> is_space c"

definition is_lower_hex :: "char \<Rightarrow> bool" where
  "is_lower_hex c \<longleftrightarrow> c \<in> set ''0123456789abcdef''"

definition normalize_mac :: "string \<Rightarrow> py_error + string" where
  "normalize_mac mac_address =
     (let mac = filter (\<lambda>c. \<not> is_mac_separator c) (py_lower mac_address) in
      if length mac \<noteq> 12 then Inl (ValueError ''Invalid MAC address length'')
      else if \<not> list_all is_lower_hex mac
        then Inl (ValueError ''Invalid MAC address characters'')
      else Inr (py_join '':'' (map (\<lambda>i. slice mac i (i + 2)) [0, 2, 4, 6, 8, 10])))"

text \<open>
  The two notions the specification uses for \<open>normalize_mac\<close>, written from its words.
  The cleaned string removes the separators first and lowercases afterwards; the
  canonical form is a full match of \<open>^[0-9a-f]{2}(:[0-9a-f]{2}){5}$\<close>.
\<close>

definition spec_cleaned_mac :: "string \<Rightarrow> string" where
  "spec_cleaned_mac s = py_lower (filter (\<lambda>c. \<not> is_mac_separator c) s)"

fun colon_hex_pairs :: "nat \<Rightarrow> string \<Rightarrow> bool" where
  "colon_hex_pairs 0 s \<longleftrightarrow> s = []"
| "colon_hex_pairs (Suc n) (c # a # b # s) \<longleftrightarrow>
     c = CHR '':'' \<and> is_lower_hex a \<and> is_lower_hex b \<and> colon_hex_pairs n s"
| "colon_hex_pairs (Suc n) _ \<longleftrightarrow> False"

definition spec_canonical_mac :: "string \<Rightarrow> bool" where
  "spec_canonical_mac s =
     (case s of a # b # rest \<Rightarrow> is_lower_hex a \<and> is_lower_hex b \<and> colon_hex_pairs 5 rest
      | _ \<Rightarrow> False)"

text \<open>The colon-separated pairs of the last line of \<open>normalize_mac\<close>, by name.\<close>

definition mac_format :: "string \<Rightarrow> string" where
  "mac_format mac = py_join '':'' (map (\<lambda>i. slice mac i (i + 2)) [0, 2, 4, 6, 8, 10])"

section \<open>\<open>core/discovery/parsers.py\<close>: VLAN parsing\<close>

text \<open>\<open>s.strip()\<close> and \<open>s.split(sep)\<close> for a separator of one character.\<close>

definition strip_with :: "(char \<Rightarrow> bool) \<Rightarrow> string \<Rightarrow> string" where
  "strip_with P s = rev (dropWhile P (rev (dropWhile P s)))"

definition py_strip :: "string \<Rightarrow> string" where
  "py_strip s = strip_with is_space s"

fun py_split :: "char \<Rightarrow> string \<Rightarrow> string list" where
  "py_split sep [] = [[]]"
| "py_split sep (c # cs) =
     (if c = sep then [] # py_split sep cs
      else (case py_split sep cs of p # ps \<Rightarrow> (c # p) # ps | [] \<Rightarrow> [[c]]))"

text \<open>
  \<open>int(s)\<close> on a string: white space around the literal is ignored (the separator
  controls \<open>0x1C\<close> to \<open>0x1F\<close>, which \<open>strip\<close> removes, are not white space
  for \<open>int\<close>), one sign may lead, and the digits may be grouped by single
  underscores. \<open>None\<close> stands for the \<open>ValueError\<close> of a malformed literal. (The
  interpreter's configurable limit on the number of digits of a literal is not
  modelled.)
\<close>

definition is_int_space :: "char \<Rightarrow> bool" where
  "is_int_space c \<longleftrightarrow> c \<in> set [CHR 0x09, CHR 0x0A, CHR 0x0B, CHR 0x0C, CHR 0x0D,
     CHR 0x20, CHR 0x85, CHR 0xA0]"

definition is_digit :: "char \<Rightarrow> bool" where
  "is_digit c \<longleftrightarrow> c \<in> set ''0123456789''"

definition digit_val :: "char \<Rightarrow> nat" where
  "digit_val c = of_char c - 48"

fun digit_groups :: "string \<Rightarrow> bool" where
  "digit_groups [] \<longleftrightarrow> False"
| "digit_groups [c] \<longleftrightarrow> is_digit c"
| "digit_groups (c # d # cs) \<longleftrightarrow>
     is_digit c \<and> (if d = CHR ''_'' then digit_groups cs else digit_groups (d # cs))"

definition decimal_value :: "string \<Rightarrow> nat" where
  "decimal_value s = foldl (\<lambda>acc c. 10 * acc + digit_val c) 0 (filter (\<lambda>c. c \<noteq> CHR ''_'') s)"

definition py_int :: "string \<Rightarrow> int option" where
  "py_int s =
     (case strip_with is_int_space s of
        [] \<Rightarrow> None
      | c # cs \<Rightarrow>
          if c = CHR ''-'' then (if digit_groups cs then Some (- int (decimal_value cs)) else None)
          else if c = CHR ''+'' then (if digit_groups cs then Some (int (decimal_value cs)) else None)
          else if digit_groups (c # cs) then Some (int (decimal_value (c # cs))) else None)"

text \<open>
  The body of the loop of \<open>_parse_vlan_list\<close>: the ids one comma-separated part adds to
  \<open>vlans\<close>. Every \<open>ValueError\<close> (a malformed literal, a part that does not split into
  exactly two pieces at its hyphens) is caught and the part adds nothing.
\<close>

definition part_vlans :: "string \<Rightarrow> int list" where
  "part_vlans part0 =
     (let part = py_strip part0 in
      if CHR ''-'' \<in> set part then
        (case py_split CHR ''-'' part of
           [start, stop] \<Rightarrow>
             (case py_int (py_strip start) of
                None \<Rightarrow> []
              | Some a \<Rightarrow>
                  (case py_int (py_strip stop) of
                     None \<Rightarrow> []
                   | Some b \<Rightarrow> [a..b]))
         | _ \<Rightarrow> [])
      else (case py_int part of None \<Rightarrow> [] | Some v \<Rightarrow> [v]))"

definition parse_vlan_list :: "string \<Rightarrow> int list" where
  "parse_vlan_list vlan_str =
     sort (remdups (concat (map part_vlans (py_split CHR '','' vlan_str))))"

text \<open>
  \<open>parse_vlans\<close> collects the matches of
  \<^verbatim>\<open>^(\d+)\s+(\S+)\s+(active|suspended|act/lshut|sus/lshut)\<close>
  (multi-line, ignoring case) with \<open>finditer\<close>. At a given start the pattern has one way
  to match at most: each of \<open>\d+\<close>, \<open>\s+\<close>, \<open>\S+\<close>, \<open>\s+\<close> is followed by an item
  that no character of its own class can begin, so each takes its whole run of
  characters. \<open>match_vlan_entry\<close> is that match at the head of a string: the record
  built from the three groups and the text after the match.
\<close>

record vlan_record =
  vlan_id :: int
  name :: string
  status :: string

definition starts_with_nocase :: "string \<Rightarrow> string \<Rightarrow> bool" where
  "starts_with_nocase word s \<longleftrightarrow>
     length word \<le> length s \<and> py_lower (take (length word) s) = word"

fun match_status :: "string list \<Rightarrow> string \<Rightarrow> (string \<times> string) option" where
  "match_status [] s = None"
| "match_status (w # ws) s =
     (if starts_with_nocase w s then Some (take (length w) s, drop (length w) s)
      else match_status ws s)"

text \<open>\<open>needle in hay\<close> on strings.\<close>

fun py_contains :: "string \<Rightarrow> string \<Rightarrow> bool" where
  "py_contains needle [] \<longleftrightarrow> needle = []"
| "py_contains needle (c # cs) \<longleftrightarrow>
     take (length needle) (c # cs) = needle \<or> py_contains needle cs"

definition match_vlan_entry :: "string \<Rightarrow> (vlan_record \<times> string) option" where
  "match_vlan_entry s =
     (let g1 = takeWhile is_digit s; r1 = dropWhile is_digit s;
          r2 = dropWhile is_space r1;
          g2 = takeWhile (\<lambda>c. \<not> is_space c) r2; r3 = dropWhile (\<lambda>c. \<not> is_space c) r2;
          r4 = dropWhile is_space r3
      in if g1 = [] \<or> r2 = r1 \<or> g2 = [] \<or> r4 = r3 then None
         else (case match_status [''active'', ''suspended'', ''act/lshut'', ''sus/lshut''] r4 of
                 None \<Rightarrow> None
               | Some (g3, rest) \<Rightarrow>
                   Some (\<lparr>vlan_id = int (decimal_value g1), name = g2,
                          status = (if py_contains ''active'' (py_lower g3)
                                    then ''active'' else ''suspended'')\<rparr>, rest)))"

lemma match_vlan_entry_shorter:
  assumes "match_vlan_entry s = Some (r, rest)"
  shows "length rest < length s"
proof -
  define r1 where "r1 = dropWhile is_digit s"
  define r2 where "r2 = dropWhile is_space r1"
  define r3 where "r3 = dropWhile (\<lambda>c. \<not> is_space c) r2"
  define r4 where "r4 = dropWhile is_space r3"
  have g1: "takeWhile is_digit s \<noteq> []"
    using assms by (auto simp: match_vlan_entry_def Let_def split: if_splits)
  have "length s = length (takeWhile is_digit s) + length r1"
    unfolding r1_def by (metis length_append takeWhile_dropWhile_id)
  with g1 have l1: "length r1 < length s"
    by (cases "takeWhile is_digit s") simp_all
  have l2: "length r2 \<le> length r1" "length r3 \<le> length r2" "length r4 \<le> length r3"
    unfolding r2_def r3_def r4_def by (simp_all add: length_dropWhile_le)
  from assms obtain g3 where
    "match_status [''active'', ''suspended'', ''act/lshut'', ''sus/lshut''] r4 = Some (g3, rest)"
    unfolding match_vlan_entry_def Let_def r4_def r3_def r2_def r1_def
    by (auto split: if_splits option.splits)
  then have "length rest \<le> length r4"
    by (auto split: if_splits)
  with l1 l2 show ?thesis by linarith
qed

text \<open>
  The scan of \<open>finditer\<close>: \<open>bol\<close> says whether the current position starts a line (the
  start of the text, or just after a newline), where \<open>^\<close> can match. A match ends in a
  letter of the status word, so the position after it never starts a line.
\<close>

function scan_vlans :: "bool \<Rightarrow> string \<Rightarrow> vlan_record list" where
  "scan_vlans bol [] = []"
| "scan_vlans bol (c # cs) =
     (case (if bol then match_vlan_entry (c # cs) else None) of
        Some (r, rest) \<Rightarrow> r # scan_vlans False rest
      | None \<Rightarrow> scan_vlans (c = CHR 0x0A) cs)"
  by pat_completeness auto
termination
proof (relation "measure (\<lambda>(bol, s). length s)")
  show "wf (measure (\<lambda>(bol, s). length s))" by simp
next
  fix bol c cs x2 x y
  assume "(if bol then match_vlan_entry (c # cs) else None) = Some x2" and "(x, y) = x2"
  then have "match_vlan_entry (c # cs) = Some (x, y)"
    by (auto split: if_splits)
  then show "((False, y), (bol, c # cs)) \<in> measure (\<lambda>(bol, s). length s)"
    using match_vlan_entry_shorter by fastforce
next
  fix bol c cs
  show "((c = CHR 0x0A, cs), (bol, c # cs)) \<in> measure (\<lambda>(bol, s). length s)"
    by simp
qed

definition parse_vlans :: "string \<Rightarrow> vlan_record list" where
  "parse_vlans output = scan_vlans True output"

section \<open>\<open>core/discovery/engine.py\<close>: the crawl\<close>

text \<open>
  \<open>DeviceConfig\<close> (the fields the engine sets for a neighbour; the others keep
  their defaults), a neighbour dictionary as the engine reads it, and \<open>DeviceInfo\<close>
  (the fields the crawl reads). A key of the neighbour dictionary always exists and may
  hold \<open>None\<close>.
\<close>

record device_config =
  hostname :: string
  ip :: string
  device_type :: string

record neighbor =
  remote_device :: "string option"
  remote_ip :: "string option"
  capabilities :: "string list option"

record device_info =
  info_hostname :: string
  neighbors :: "neighbor list"

text \<open>The effective settings of one crawl.\<close>

record crawl_config =
  seed_devices :: "device_config list"
  max_depth :: int
  max_workers :: int

text \<open>
  The state of the crawl. \<open>discovered_devices\<close>, \<open>discovery_queue\<close>, \<open>device_data\<close>
  and \<open>errors\<close> are the attributes of the engine; \<open>futures\<close> is the local list of
  running tasks of \<open>_process_discovery_queue\<close>, each task standing for the call
  \<open>_discover_device(device_config, depth)\<close> it runs. \<open>put_log\<close> and \<open>submit_log\<close> are
  history variables: every \<open>discovery_queue.put\<close> and every \<open>executor.submit\<close> in
  the order they happen.
\<close>

record engine_state =
  discovered_devices :: "string set"
  discovery_queue :: "(device_config \<times> int) list"
  device_data :: "string \<rightharpoonup> device_info"
  errors :: "(string \<times> string) list"
  futures :: "(device_config \<times> int) list"
  put_log :: "(device_config \<times> int) list"
  submit_log :: "(device_config \<times> int) list"

definition initial_state :: engine_state where
  "initial_state = \<lparr>discovered_devices = {}, discovery_queue = [], device_data = Map.empty,
     errors = [], futures = [], put_log = [], submit_log = []\<rparr>"

definition queue_put :: "device_config \<times> int \<Rightarrow> engine_state \<Rightarrow> engine_state" where
  "queue_put item s = s\<lparr>discovery_queue := discovery_queue s @ [item],
                         put_log := put_log s @ [item]\<rparr>"

text \<open>The capability test of \<open>_process_discovered_device\<close>.\<close>

definition is_switch_or_router :: "string list \<Rightarrow> bool" where
  "is_switch_or_router caps \<longleftrightarrow>
     list_ex (\<lambda>cap. cap \<in> set [''Switch'', ''Router'', ''switch'', ''router'']) caps"


text \<open>
  The \<open>DeviceConfig\<close> made for a neighbour: \<open>ip\<close> is \<open>neighbor_ip or neighbor_hostname\<close>,
  the device type is the one of the first seed device.
\<close>

definition neighbor_config :: "string \<Rightarrow> neighbor \<Rightarrow> device_config \<Rightarrow> device_config" where
  "neighbor_config neighbor_hostname n seed =
     \<lparr>hostname = neighbor_hostname,
      ip = (case remote_ip n of
              None \<Rightarrow> neighbor_hostname
            | Some a \<Rightarrow> if a = [] then neighbor_hostname else a),
      device_type = device_type seed\<rparr>"

text \<open>
  The loop over the neighbours. An exception leaves the loop with the state as it is at
  that moment: a \<open>TypeError\<close> when the capabilities are \<open>None\<close> (the key exists, so
  the default of \<open>get\<close> is not used), an \<open>IndexError\<close> when there is no seed device to
  take the device type from.
\<close>

fun queue_neighbors ::
  "crawl_config \<Rightarrow> int \<Rightarrow> neighbor list \<Rightarrow> engine_state \<Rightarrow> py_error option \<times> engine_state" where
  "queue_neighbors cfg depth [] s = (None, s)"
| "queue_neighbors cfg depth (n # ns) s =
     (case remote_device n of
        None \<Rightarrow> queue_neighbors cfg depth ns s
      | Some neighbor_hostname \<Rightarrow>
          if neighbor_hostname = [] \<or> neighbor_hostname \<in> discovered_devices s
          then queue_neighbors cfg depth ns s
          else (case capabilities n of
                  None \<Rightarrow> (Some (TypeError ''NoneType object is not iterable''), s)
                | Some caps \<Rightarrow>
                    if \<not> is_switch_or_router caps then queue_neighbors cfg depth ns s
                    else (case seed_devices cfg of
                            [] \<Rightarrow> (Some (IndexError ''list index out of range''), s)
                          | seed # _ \<Rightarrow>
                              queue_neighbors cfg depth ns
                                (queue_put
                                  (neighbor_config neighbor_hostname n seed, depth + 1) s))))"

definition process_discovered_device ::
  "crawl_config \<Rightarrow> device_info \<Rightarrow> int \<Rightarrow> engine_state \<Rightarrow> py_error option \<times> engine_state" where
  "process_discovered_device cfg info depth s =
     (let s1 = s\<lparr>device_data := (device_data s)(info_hostname info \<mapsto> info)\<rparr> in
      if depth < max_depth cfg - 1 then queue_neighbors cfg depth (neighbors info) s1
      else (None, s1))"

text \<open>
  The inner loop of \<open>_process_discovery_queue\<close>: take items off the queue while there
  are any and a worker is free; skip a host already discovered and an item at or beyond
  the depth limit, mark and submit the others.
\<close>

function submit_tasks :: "crawl_config \<Rightarrow> engine_state \<Rightarrow> engine_state" where
  "submit_tasks cfg s =
     (case discovery_queue s of
        [] \<Rightarrow> s
      | (dc, depth) # rest \<Rightarrow>
          if \<not> int (length (futures s)) < max_workers cfg then s
          else if hostname dc \<in> discovered_devices s
            then submit_tasks cfg (s\<lparr>discovery_queue := rest\<rparr>)
          else if depth \<ge> max_depth cfg
            then submit_tasks cfg (s\<lparr>discovery_queue := rest\<rparr>)
          else submit_tasks cfg
                 (s\<lparr>discovery_queue := rest,
                    discovered_devices := insert (hostname dc) (discovered_devices s),
                    futures := futures s @ [(dc, depth)],
                    submit_log := submit_log s @ [(dc, depth)]\<rparr>))"
  by pat_completeness auto
termination
  by (relation "measure (\<lambda>(cfg, s). length (discovery_queue s))") auto

text \<open>
  What the surroundings decide: which running task finishes first (its index in
  \<open>futures\<close>, taken modulo their number) and what its collector returned, the device
  record or a failure with its message. \<open>_discover_device\<close> catches every exception, so
  a task always yields a result; on a failure it has added an entry to \<open>errors\<close>.
\<close>

datatype collector_result = Collected device_info | Failed string

definition complete_task :: "crawl_config \<Rightarrow> nat \<times> collector_result \<Rightarrow> engine_state \<Rightarrow> engine_state" where
  "complete_task cfg ev s =
     (let i = fst ev mod length (futures s);
          (dc, depth) = futures s ! i;
          s1 = s\<lparr>futures := take i (futures s) @ drop (Suc i) (futures s)\<rparr>
      in case snd ev of
           Failed msg \<Rightarrow> s1\<lparr>errors := errors s1 @ [(hostname dc, msg)]\<rparr>
         | Collected info \<Rightarrow> snd (process_discovered_device cfg info depth s1))"

declare submit_tasks.simps [simp del]

lemma submit_tasks_Nil: "discovery_queue s = [] \<Longrightarrow> submit_tasks cfg s = s"
  by (simp add: submit_tasks.simps [of cfg s])

lemma submit_tasks_Cons:
  "discovery_queue s = (dc, depth) # rest \<Longrightarrow>
   submit_tasks cfg s =
     (if \<not> int (length (futures s)) < max_workers cfg then s
      else if hostname dc \<in> discovered_devices s \<or> max_depth cfg \<le> depth
        then submit_tasks cfg (s\<lparr>discovery_queue := rest\<rparr>)
      else submit_tasks cfg
             (s\<lparr>discovery_queue := rest,
                discovered_devices := insert (hostname dc) (discovered_devices s),
                futures := futures s @ [(dc, depth)],
                submit_log := submit_log s @ [(dc, depth)]\<rparr>))"
  by (simp add: submit_tasks.simps [of cfg s])

lemma submit_tasks_rule:
  assumes "P s"
    and "\<And>s dc depth rest. \<lbrakk>P s; discovery_queue s = (dc, depth) # rest;
            int (length (futures s)) < max_workers cfg;
            hostname dc \<in> discovered_devices s \<or> max_depth cfg \<le> depth\<rbrakk>
          \<Longrightarrow> P (s\<lparr>discovery_queue := rest\<rparr>)"
    and "\<And>s dc depth rest. \<lbrakk>P s; discovery_queue s = (dc, depth) # rest;
            int (length (futures s)) < max_workers cfg;
            hostname dc \<notin> discovered_devices s; depth < max_depth cfg\<rbrakk>
          \<Longrightarrow> P (s\<lparr>discovery_queue := rest,
                discovered_devices := insert (hostname dc) (discovered_devices s),
                futures := futures s @ [(dc, depth)],
                submit_log := submit_log s @ [(dc, depth)]\<rparr>)"
  shows "P (submit_tasks cfg s)"
  using assms
proof (induction cfg s rule: submit_tasks.induct)
  case (1 cfg s)
  note P = "1.prems"(1) and skip = "1.prems"(2) and submit = "1.prems"(3)
  show ?case
  proof (cases "discovery_queue s")
    case Nil
    with P show ?thesis by (simp add: submit_tasks_Nil)
  next
    case (Cons item rest)
    obtain dc depth where item: "item = (dc, depth)" by (cases item)
    note q = Cons [unfolded item]
    show ?thesis
    proof (cases "int (length (futures s)) < max_workers cfg")
      case False
      with P q show ?thesis by (simp add: submit_tasks_Cons)
    next
      case free: True
      show ?thesis
      proof (cases "hostname dc \<in> discovered_devices s")
        case True
        have "P (submit_tasks cfg (s\<lparr>discovery_queue := rest\<rparr>))"
        proof (rule "1.IH"(1) [OF Cons item [symmetric] _ True])
          show "\<not> \<not> int (length (futures s)) < max_workers cfg" using free by simp
          show "P (s\<lparr>discovery_queue := rest\<rparr>)" using skip [OF P q free] True by simp
        qed (fact skip, fact submit)
        with q free True show ?thesis by (simp add: submit_tasks_Cons)
      next
        case unseen: False
        show ?thesis
        proof (cases "max_depth cfg \<le> depth")
          case True
          have "P (submit_tasks cfg (s\<lparr>discovery_queue := rest\<rparr>))"
          proof (rule "1.IH"(2) [OF Cons item [symmetric] _ unseen True])
            show "\<not> \<not> int (length (futures s)) < max_workers cfg" using free by simp
            show "P (s\<lparr>discovery_queue := rest\<rparr>)" using skip [OF P q free] True by simp
          qed (fact skip, fact submit)
          with q free True show ?thesis by (simp add: submit_tasks_Cons)
        next
          case False
          let ?s' = "s\<lparr>discovery_queue := rest,
                discovered_devices := insert (hostname dc) (discovered_devices s),
                futures := futures s @ [(dc, depth)],
                submit_log := submit_log s @ [(dc, depth)]\<rparr>"
          have "P (submit_tasks cfg ?s')"
          proof (rule "1.IH"(3) [OF Cons item [symmetric] _ unseen False])
            show "\<not> \<not> int (length (futures s)) < max_workers cfg" using free by simp
            show "P ?s'" using submit [OF P q free unseen] False by simp
          qed (fact skip, fact submit)
          with q free unseen False show ?thesis by (simp add: submit_tasks_Cons)
        qed
      qed
    qed
  qed
qed

lemma submit_tasks_queue_futures:
  "(\<exists>fs. futures (submit_tasks cfg s) = futures s @ fs)
   \<and> length (discovery_queue (submit_tasks cfg s)) \<le> length (discovery_queue s)"
  (is "?Q (submit_tasks cfg s)")
  by (rule submit_tasks_rule [where P = "?Q"]) auto

lemma submit_tasks_queue_less:
  assumes "0 < max_workers cfg" and "futures s = []" and "discovery_queue s \<noteq> []"
  shows "length (discovery_queue (submit_tasks cfg s)) < length (discovery_queue s)"
proof -
  from assms(3) obtain dc depth rest where q: "discovery_queue s = (dc, depth) # rest"
    by (cases "discovery_queue s") auto
  have le: "length (discovery_queue (submit_tasks cfg s')) < Suc (length rest)"
    if "discovery_queue s' = rest" for s'
    using submit_tasks_queue_futures [of cfg s'] that by simp
  from assms(1,2) q show ?thesis
    by (auto simp: submit_tasks_Cons intro!: le)
qed

text \<open>
  The outer loop of \<open>_process_discovery_queue\<close>. \<open>ThreadPoolExecutor\<close> raises
  \<open>ValueError\<close> unless \<open>max_workers\<close> is positive; it is created once, before the loop,
  and the setting never changes, so the test is the same at every round. Each round
  submits what it can and then, if tasks are running, waits for one to finish and
  processes its result; an exception of \<open>_process_discovered_device\<close> is caught and
  logged, its changes to the state stay. The wait takes the next decision of the
  surroundings; when the list of decisions is used up while tasks still run, the crawl
  is left \<open>Waiting\<close>.
\<close>

datatype crawl_status = Completed | Waiting | Raised py_error

function process_discovery_queue ::
  "crawl_config \<Rightarrow> (nat \<times> collector_result) list \<Rightarrow> engine_state \<Rightarrow> crawl_status \<times> engine_state" where
  "process_discovery_queue cfg evs s =
     (if max_workers cfg \<le> 0
        then (Raised (ValueError ''max_workers must be greater than 0''), s)
      else if discovery_queue s = [] \<and> futures s = [] then (Completed, s)
      else if futures (submit_tasks cfg s) = []
        then process_discovery_queue cfg evs (submit_tasks cfg s)
      else (case evs of
              [] \<Rightarrow> (Waiting, submit_tasks cfg s)
            | ev # evs' \<Rightarrow>
                process_discovery_queue cfg evs' (complete_task cfg ev (submit_tasks cfg s))))"
  by pat_completeness auto
termination
proof (relation "measures [\<lambda>(cfg, evs, s). length evs, \<lambda>(cfg, evs, s). length (discovery_queue s)]")
  show "wf (measures [\<lambda>(cfg, evs, s). length evs, \<lambda>(cfg, evs, s). length (discovery_queue s)])"
    by simp
next
  fix cfg :: crawl_config and evs :: "(nat \<times> collector_result) list" and s :: engine_state
  assume w: "\<not> max_workers cfg \<le> 0" and busy: "\<not> (discovery_queue s = [] \<and> futures s = [])"
    and idle: "futures (submit_tasks cfg s) = []"
  from idle submit_tasks_queue_futures [of cfg s] have f: "futures s = []" by auto
  with busy have "discovery_queue s \<noteq> []" by simp
  with w f have "length (discovery_queue (submit_tasks cfg s)) < length (discovery_queue s)"
    by (intro submit_tasks_queue_less) simp_all
  then show "((cfg, evs, submit_tasks cfg s), (cfg, evs, s))
      \<in> measures [\<lambda>(cfg, evs, s). length evs, \<lambda>(cfg, evs, s). length (discovery_queue s)]"
    by simp
next
  fix cfg :: crawl_config and evs :: "(nat \<times> collector_result) list" and s :: engine_state
    and ev evs'
  assume "evs = ev # evs'"
  then show "((cfg, evs', complete_task cfg ev (submit_tasks cfg s)), (cfg, evs, s))
      \<in> measures [\<lambda>(cfg, evs, s). length evs, \<lambda>(cfg, evs, s). length (discovery_queue s)]"
    by simp
qed

declare process_discovery_queue.simps [simp del]

text \<open>
  \<open>start_discovery\<close>: every seed device is put on the queue at depth 0, then the queue
  is processed.
\<close>

definition seed_queue :: "crawl_config \<Rightarrow> engine_state \<Rightarrow> engine_state" where
  "seed_queue cfg s = foldl (\<lambda>s seed_device. queue_put (seed_device, 0) s) s (seed_devices cfg)"

definition start_discovery ::
  "crawl_config \<Rightarrow> (nat \<times> collector_result) list \<Rightarrow> crawl_status \<times> engine_state" where
  "start_discovery cfg evs = process_discovery_queue cfg evs (seed_queue cfg initial_state)"

section \<open>The invariant of the crawl and example data\<close>

text \<open>
  The invariant of the crawl: what the history of puts and submits satisfies at every
  moment. \<open>seed_puts\<close> are the puts of \<open>start_discovery\<close>.
\<close>

definition seed_puts :: "crawl_config \<Rightarrow> (device_config \<times> int) list" where
  "seed_puts cfg = map (\<lambda>d. (d, 0)) (seed_devices cfg)"

definition crawl_inv :: "crawl_config \<Rightarrow> engine_state \<Rightarrow> bool" where
  "crawl_inv cfg s \<longleftrightarrow>
     set (discovery_queue s) \<subseteq> set (put_log s)
   \<and> set (futures s) \<subseteq> set (submit_log s)
   \<and> (\<forall>x \<in> set (submit_log s). snd x < max_depth cfg \<and> x \<in> set (put_log s))
   \<and> (\<forall>x \<in> set (put_log s). 0 \<le> snd x)
   \<and> (\<exists>nb. put_log s = seed_puts cfg @ nb
          \<and> (\<forall>x \<in> set nb. 1 \<le> snd x \<and> snd x < max_depth cfg
                \<and> (\<exists>dc. (dc, snd x - 1) \<in> set (submit_log s))))
   \<and> hostname ` fst ` set (submit_log s) = discovered_devices s
   \<and> distinct (map (hostname \<circ> fst) (submit_log s))"

text \<open>Two seeds that both report the switch \<open>C\<close>, for the concrete runs below.\<close>

definition seed_a :: device_config where
  "seed_a = \<lparr>hostname = ''A'', ip = ''10.0.0.1'', device_type = ''cisco_ios''\<rparr>"

definition seed_b :: device_config where
  "seed_b = \<lparr>hostname = ''B'', ip = ''10.0.0.2'', device_type = ''cisco_ios''\<rparr>"

definition config_c :: device_config where
  "config_c = \<lparr>hostname = ''C'', ip = ''C'', device_type = ''cisco_ios''\<rparr>"

definition neighbor_c :: "string list \<Rightarrow> neighbor" where
  "neighbor_c caps = \<lparr>remote_device = Some ''C'', remote_ip = None, capabilities = Some caps\<rparr>"

definition info_a :: device_info where
  "info_a = \<lparr>info_hostname = ''A'', neighbors = [neighbor_c [''Router'', ''Switch'']]\<rparr>"

definition info_b :: device_info where
  "info_b = \<lparr>info_hostname = ''B'', neighbors = [neighbor_c [''Router'', ''Switch'']]\<rparr>"

definition two_seeds :: "int \<Rightarrow> crawl_config" where
  "two_seeds n = \<lparr>seed_devices = [seed_a, seed_b], max_depth = n, max_workers = 1\<rparr>"

section \<open>Properties of \<open>normalize_mac\<close>\<close>

lemma lower_hex_fix: "is_lower_hex c \<Longrightarrow> py_lower_char c = c"
  by (auto simp: is_lower_hex_def py_lower_char_def)

lemma lower_colon: "py_lower_char CHR '':'' = CHR '':''"
  by (simp add: py_lower_char_def)

lemma hex_not_sep: "is_lower_hex c \<Longrightarrow> \<not> is_mac_separator c"
  by (auto simp: is_lower_hex_def is_mac_separator_def is_space_def)

lemma colon_sep: "is_mac_separator CHR '':''"
  by (simp add: is_mac_separator_def)

lemma char_eq_code: "c = d \<longleftrightarrow> (of_char c :: nat) = of_char d"
  by simp

lemma sep_code: "is_mac_separator c \<longleftrightarrow>
   (of_char c :: nat) \<in> {46, 58, 45, 9, 10, 11, 12, 13, 28, 29, 30, 31, 32, 133, 160}"
  unfolding is_mac_separator_def is_space_def
  by (simp add: char_eq_code [of c])

lemma sep_lower: "is_mac_separator (py_lower_char c) = is_mac_separator c"
proof -
  have "(of_char c :: nat) < 256" by simp
  then show ?thesis
    unfolding sep_code py_lower_char_def Let_def
    by (auto simp: mod_if)
qed

lemma cleaned_eq:
  "filter (\<lambda>c. \<not> is_mac_separator c) (py_lower s) = spec_cleaned_mac s"
  by (induction s) (simp_all add: spec_cleaned_mac_def py_lower_def sep_lower)

lemma len12: "length xs = 12 \<Longrightarrow> \<exists>a b c d e f g h i j k l. xs = [a,b,c,d,e,f,g,h,i,j,k,l]"
  by (auto simp add: numeral_eq_Suc length_Suc_conv) 

lemma normalize_mac_cases:
  "normalize_mac s =
     (if length (spec_cleaned_mac s) \<noteq> 12 then Inl (ValueError ''Invalid MAC address length'')
      else if \<not> list_all is_lower_hex (spec_cleaned_mac s)
        then Inl (ValueError ''Invalid MAC address characters'')
      else Inr (mac_format (spec_cleaned_mac s)))"
  by (simp add: normalize_mac_def cleaned_eq mac_format_def Let_def)

lemma mac_format_12:
  "mac_format [a,b,c,d,e,f,g,h,i,j,k,l] = [a,b,CHR '':'',c,d,CHR '':'',e,f,CHR '':'',g,h,CHR '':'',i,j,CHR '':'',k,l]"
  by (simp add: mac_format_def slice_def)

lemma mac_format_canonical:
  assumes "length mac = 12" "list_all is_lower_hex mac"
  shows "spec_canonical_mac (mac_format mac)"
proof -
  from len12 [OF assms(1)] obtain a b c d e f g h i j k l
    where m: "mac = [a,b,c,d,e,f,g,h,i,j,k,l]" by blast
  have five: "5 = Suc (Suc (Suc (Suc (Suc 0))))" by simp
  show ?thesis using assms(2) unfolding m mac_format_12 spec_canonical_mac_def five
    by simp
qed

lemma mac_format_cleaned:
  assumes "length mac = 12" "list_all is_lower_hex mac"
  shows "spec_cleaned_mac (mac_format mac) = mac"
proof -
  from len12 [OF assms(1)] obtain a b c d e f g h i j k l
    where m: "mac = [a,b,c,d,e,f,g,h,i,j,k,l]" by blast
  show ?thesis using assms(2) unfolding m mac_format_12 spec_cleaned_mac_def py_lower_def
    by (simp add: hex_not_sep colon_sep lower_hex_fix)
qed

text \<open>
  C3. \<open>normalize_mac\<close> returns normally exactly when its input, with the separators
  \<open>.\<close>, \<open>:\<close>, \<open>-\<close> and white space removed and lowercased, consists of exactly 12
  hexadecimal digits; any other length raises \<open>ValueError\<close>; every value it returns
  has the canonical form \<open>^[0-9a-f]{2}(:[0-9a-f]{2}){5}$\<close>; and applied to its own
  output it returns that output unchanged.
\<close>

theorem normalize_mac_correct:
  "((\<exists>r. normalize_mac s = Inr r) \<longleftrightarrow>
      length (spec_cleaned_mac s) = 12 \<and> list_all is_lower_hex (spec_cleaned_mac s))
   \<and> (length (spec_cleaned_mac s) \<noteq> 12 \<longrightarrow>
        normalize_mac s = Inl (ValueError ''Invalid MAC address length''))
   \<and> (\<forall>r. normalize_mac s = Inr r \<longrightarrow> spec_canonical_mac r \<and> normalize_mac r = Inr r)"
proof (intro conjI allI impI)
  show "(\<exists>r. normalize_mac s = Inr r) \<longleftrightarrow>
      length (spec_cleaned_mac s) = 12 \<and> list_all is_lower_hex (spec_cleaned_mac s)"
    by (simp add: normalize_mac_cases)
next
  assume "length (spec_cleaned_mac s) \<noteq> 12"
  then show "normalize_mac s = Inl (ValueError ''Invalid MAC address length'')"
    by (simp add: normalize_mac_cases)
next
  fix r assume r: "normalize_mac s = Inr r"
  then have ok: "length (spec_cleaned_mac s) = 12" "list_all is_lower_hex (spec_cleaned_mac s)"
    and r_def: "r = mac_format (spec_cleaned_mac s)"
    by (auto simp: normalize_mac_cases split: if_splits)
  show "spec_canonical_mac r"
    unfolding r_def by (rule mac_format_canonical [OF ok])
  have "spec_cleaned_mac r = spec_cleaned_mac s"
    unfolding r_def by (rule mac_format_cleaned [OF ok])
  with ok have "normalize_mac r = Inr (mac_format (spec_cleaned_mac s))"
    by (simp only: normalize_mac_cases [of r] if_False not_not simp_thms)
  then show "normalize_mac r = Inr r"
    by (simp only: r_def)
qed

theorem normalize_mac_correct_witness:
  "normalize_mac ''AA-BB-CC-11-22-33'' = Inr ''aa:bb:cc:11:22:33''
   \<and> normalize_mac ''aa:bb:cc:11:22:33'' = Inr ''aa:bb:cc:11:22:33''
   \<and> normalize_mac ''aabb.cc11.2233'' = Inr ''aa:bb:cc:11:22:33''
   \<and> normalize_mac ''aabbcc112233'' = Inr ''aa:bb:cc:11:22:33''
   \<and> spec_canonical_mac ''aa:bb:cc:11:22:33''
   \<and> length (spec_cleaned_mac ''aabbcc11223'') \<noteq> 12
   \<and> normalize_mac ''aabbcc11223'' = Inl (ValueError ''Invalid MAC address length'')"
proof -
  have h: "normalize_mac ''AA-BB-CC-11-22-33'' = Inr ''aa:bb:cc:11:22:33''"
    by code_simp
  have d: "normalize_mac ''aabb.cc11.2233'' = Inr ''aa:bb:cc:11:22:33''"
    by code_simp
  have u: "normalize_mac ''aabbcc112233'' = Inr ''aa:bb:cc:11:22:33''"
    by code_simp
  have l: "length (spec_cleaned_mac ''aabbcc11223'') \<noteq> 12"
    by code_simp
  from normalize_mac_correct [of "''AA-BB-CC-11-22-33''"] h
  have "spec_canonical_mac ''aa:bb:cc:11:22:33''
        \<and> normalize_mac ''aa:bb:cc:11:22:33'' = Inr ''aa:bb:cc:11:22:33''"
    by blast
  moreover from normalize_mac_correct [of "''aabbcc11223''"] l
  have "normalize_mac ''aabbcc11223'' = Inl (ValueError ''Invalid MAC address length'')"
    by blast
  ultimately show ?thesis using h d u l by blast
qed

section \<open>Properties of the VLAN parsers\<close>

lemma set_strip_with: "set (strip_with P s) \<subseteq> set s"
proof -
  have "set (dropWhile P (rev (dropWhile P s))) \<subseteq> set (rev (dropWhile P s))"
    by (rule set_dropWhileD [THEN subsetI]) 
  also have "\<dots> \<subseteq> set s"
    using set_dropWhileD by fastforce
  finally show ?thesis by (simp add: strip_with_def)
qed

lemma digit_groups_no_sign: "digit_groups s \<Longrightarrow> hd s \<noteq> CHR ''-''"
  by (induction s rule: digit_groups.induct) (auto simp: is_digit_def)

lemma py_int_nonneg:
  assumes "py_int s = Some v" and "CHR ''-'' \<notin> set s"
  shows "0 \<le> v"
proof -
  from assms(2) set_strip_with [of is_int_space s]
  have "CHR ''-'' \<notin> set (strip_with is_int_space s)" by blast
  with assms(1) show ?thesis
    by (auto simp: py_int_def split: list.splits if_splits)
qed

lemma py_split_not_empty: "py_split sep s \<noteq> []"
  by (induction s) (auto split: list.splits)

lemma py_split_pieces: "p \<in> set (py_split sep s) \<Longrightarrow> sep \<notin> set p \<and> set p \<subseteq> set s"
proof (induction s arbitrary: p)
  case Nil
  then show ?case by simp
next
  case (Cons c cs)
  show ?case
  proof (cases "c = sep")
    case True
    with Cons show ?thesis by auto
  next
    case False
    obtain q qs where q: "py_split sep cs = q # qs"
      using py_split_not_empty by (cases "py_split sep cs") auto
    from Cons.prems False q have "p = c # q \<or> p \<in> set qs" by simp
    then show ?thesis
    proof
      assume p: "p = c # q"
      from Cons.IH [of q] q have "sep \<notin> set q \<and> set q \<subseteq> set cs" by simp
      with p False show ?thesis by auto
    next
      assume "p \<in> set qs"
      with Cons.IH [of p] q show ?thesis by auto
    qed
  qed
qed

lemma py_split_single: "py_split sep s = [b] \<Longrightarrow> s = b"
proof (induction s arbitrary: b)
  case Nil
  then show ?case by simp
next
  case (Cons c cs)
  obtain q qs where q: "py_split sep cs = q # qs"
    using py_split_not_empty by (cases "py_split sep cs") auto
  with Cons.prems have "c \<noteq> sep" by (auto split: if_splits)
  with Cons.prems q have "b = c # q" "qs = []" by auto
  with Cons.IH [of q] q show ?case by simp
qed

lemma py_split_two: "py_split sep s = [a, b] \<Longrightarrow> s = a @ sep # b"
proof (induction s arbitrary: a)
  case Nil
  then show ?case by simp
next
  case (Cons c cs)
  show ?case
  proof (cases "c = sep")
    case True
    with Cons.prems have a: "a = []" and b: "py_split sep cs = [b]" by auto
    from py_split_single [OF b] a True show ?thesis by simp
  next
    case False
    obtain q qs where q: "py_split sep cs = q # qs"
      using py_split_not_empty by (cases "py_split sep cs") auto
    with Cons.prems False have "a = c # q" "qs = [b]" by auto
    with Cons.IH [of q] q False show ?thesis by simp
  qed
qed

lemma part_vlans_range_cases:
  assumes "CHR ''-'' \<in> set (py_strip p)" and "part_vlans p \<noteq> []"
  shows "\<exists>start stop a b. py_split CHR ''-'' (py_strip p) = [start, stop]
           \<and> py_int (py_strip start) = Some a \<and> py_int (py_strip stop) = Some b
           \<and> part_vlans p = [a..b]"
proof (cases "py_split CHR ''-'' (py_strip p)")
  case Nil
  with assms show ?thesis by (simp add: part_vlans_def)
next
  case c1: (Cons start r1)
  show ?thesis
  proof (cases r1)
    case Nil
    with c1 assms show ?thesis by (simp add: part_vlans_def)
  next
    case c2: (Cons stop r2)
    show ?thesis
    proof (cases r2)
      case Nil
      with c1 c2 assms show ?thesis
        by (cases "py_int (py_strip start)"; cases "py_int (py_strip stop)")
           (simp_all add: part_vlans_def)
    next
      case (Cons x r3)
      with c1 c2 assms show ?thesis by (simp add: part_vlans_def)
    qed
  qed
qed

lemma part_vlans_nonneg: "v \<in> set (part_vlans p) \<Longrightarrow> 0 \<le> v"
proof -
  assume v: "v \<in> set (part_vlans p)"
  show ?thesis
  proof (cases "CHR ''-'' \<in> set (py_strip p)")
    case True
    from v have "part_vlans p \<noteq> []" by auto
    from part_vlans_range_cases [OF True this] v
    obtain start stop a b where sp: "py_split CHR ''-'' (py_strip p) = [start, stop]"
      and a: "py_int (py_strip start) = Some a" and b: "py_int (py_strip stop) = Some b"
      and vr: "v \<in> set [a..b]"
      by auto
    have "CHR ''-'' \<notin> set start"
      using py_split_pieces [of start "CHR ''-''" "py_strip p"] sp by simp
    then have "CHR ''-'' \<notin> set (py_strip start)"
      using set_strip_with [of is_space start] by (auto simp: py_strip_def)
    with a have "0 \<le> a" by (rule py_int_nonneg)
    with vr show ?thesis by simp
  next
    case False
    with v have "py_int (py_strip p) = Some v"
      by (auto simp: part_vlans_def Let_def split: option.splits)
    with False show ?thesis by (rule py_int_nonneg [rotated -1]) 
  qed
qed

lemma parse_vlan_list_set:
  "set (parse_vlan_list s) = (\<Union>p \<in> set (py_split CHR '','' s). set (part_vlans p))"
  by (simp add: parse_vlan_list_def)

lemma parse_vlan_list_strict: "sorted_wrt (<) (parse_vlan_list s)"
  by (simp add: parse_vlan_list_def strict_sorted_iff)

lemma part_vlans_dropped:
  assumes "py_int (py_strip p) = None"
    and "\<not> (\<exists>a b. py_strip p = a @ ''-'' @ b \<and> py_int (py_strip a) \<noteq> None \<and> py_int (py_strip b) \<noteq> None)"
  shows "part_vlans p = []"
proof (cases "CHR ''-'' \<in> set (py_strip p)")
  case True
  show ?thesis
  proof (rule ccontr)
    assume "part_vlans p \<noteq> []"
    from part_vlans_range_cases [OF True this]
    obtain start stop a b where sp: "py_split CHR ''-'' (py_strip p) = [start, stop]"
      and a: "py_int (py_strip start) = Some a" and b: "py_int (py_strip stop) = Some b"
      by auto
    from py_split_two [OF sp] have "py_strip p = start @ ''-'' @ stop" by simp
    with a b assms(2) show False by blast
  qed
next
  case False
  with assms(1) show ?thesis by (simp add: part_vlans_def Let_def)
qed

lemma sort_remdups_upto: "sort (remdups [i..j]) = [i..j]"
  by (simp add: distinct_remdups_id sort_key_id_if_sorted del: upto.simps)

lemma part_vlans_range:
  assumes "CHR ''-'' \<in> set (py_strip p)" "py_split CHR ''-'' (py_strip p) = [a, b]"
    "py_int (py_strip a) = Some x" "py_int (py_strip b) = Some y"
  shows "part_vlans p = [x..y]"
  using assms by (simp add: part_vlans_def Let_def)

lemma parse_vlan_list_full_range: "parse_vlan_list ''1-4094'' = [1..4094]"
proof -
  have 1: "CHR ''-'' \<in> set (py_strip ''1-4094'')" by code_simp
  have 2: "py_split CHR ''-'' (py_strip ''1-4094'') = [''1'', ''4094'']" by code_simp
  have 3: "py_int (py_strip ''1'') = Some 1" by code_simp
  have 4: "py_int (py_strip ''4094'') = Some 4094" by code_simp
  have 5: "py_split CHR '','' ''1-4094'' = [''1-4094'']" by code_simp
  have "parse_vlan_list ''1-4094'' = sort (remdups [1..4094])"
    unfolding parse_vlan_list_def 5
    by (simp only: list.map concat.simps append_Nil2 part_vlans_range [OF 1 2 3 4])
  then show ?thesis by (simp only: sort_remdups_upto)
qed

lemma match_vlan_entry_nonneg: "match_vlan_entry s = Some (r, rest) \<Longrightarrow> 0 \<le> vlan_id r"
  by (auto simp: match_vlan_entry_def Let_def split: if_splits option.splits)

lemma scan_vlans_nonneg: "r \<in> set (scan_vlans bol s) \<Longrightarrow> 0 \<le> vlan_id r"
proof (induction bol s rule: scan_vlans.induct)
  case (1 bol)
  then show ?case by simp
next
  case (2 bol c cs)
  show ?case
  proof (cases "if bol then match_vlan_entry (c # cs) else None")
    case None
    with 2 show ?thesis by simp
  next
    case (Some m)
    obtain r' rest where m: "m = (r', rest)" by (cases m)
    from Some m have "match_vlan_entry (c # cs) = Some (r', rest)"
      by (simp split: if_splits)
    then have "0 \<le> vlan_id r'" by (rule match_vlan_entry_nonneg)
    with 2 Some m show ?thesis by auto
  qed
qed

text \<open>
  C4. For every input string \<open>_parse_vlan_list\<close> returns a strictly increasing list of
  integers without duplicates, holding exactly the ids its comma-separated parts
  contribute; a part that is neither a single integer nor an integer range contributes
  nothing; \<open>"1-4094"\<close> gives the list of 1 to 4094 in order and \<open>"10,20,30-32"\<close> gives
  \<open>[10, 20, 30, 31, 32]\<close>.
\<close>

theorem parse_vlan_list_correct:
  "sorted_wrt (<) (parse_vlan_list s) \<and> distinct (parse_vlan_list s)
   \<and> set (parse_vlan_list s) = (\<Union>p \<in> set (py_split CHR '','' s). set (part_vlans p))
   \<and> (\<forall>p. py_int (py_strip p) = None
          \<and> \<not> (\<exists>a b. py_strip p = a @ ''-'' @ b
                    \<and> py_int (py_strip a) \<noteq> None \<and> py_int (py_strip b) \<noteq> None)
          \<longrightarrow> part_vlans p = [])
   \<and> parse_vlan_list ''1-4094'' = [1..4094]
   \<and> parse_vlan_list ''10,20,30-32'' = [10, 20, 30, 31, 32]"
proof (intro conjI allI impI)
  show "sorted_wrt (<) (parse_vlan_list s)" by (rule parse_vlan_list_strict)
  then show "distinct (parse_vlan_list s)" by (simp add: strict_sorted_iff)
  show "set (parse_vlan_list s) = (\<Union>p \<in> set (py_split CHR '','' s). set (part_vlans p))"
    by (rule parse_vlan_list_set)
  show "parse_vlan_list ''1-4094'' = [1..4094]" by (rule parse_vlan_list_full_range)
  show "parse_vlan_list ''10,20,30-32'' = [10, 20, 30, 31, 32]" by code_simp
next
  fix p
  assume "py_int (py_strip p) = None
          \<and> \<not> (\<exists>a b. py_strip p = a @ ''-'' @ b
                    \<and> py_int (py_strip a) \<noteq> None \<and> py_int (py_strip b) \<noteq> None)"
  then show "part_vlans p = []" using part_vlans_dropped by blast
qed

theorem parse_vlan_list_correct_witness:
  "py_int (py_strip ''Gi0/1'') = None \<and> part_vlans ''Gi0/1'' = []
   \<and> 20 \<in> set (part_vlans '' 20'') \<and> 20 \<in> set (parse_vlan_list ''10,Gi0/1, 20,30-32,31'')
   \<and> parse_vlan_list ''10,Gi0/1, 20,30-32,31'' = [10, 20, 30, 31, 32]"
proof -
  have n: "py_int (py_strip ''Gi0/1'') = None" by code_simp
  have s: "py_strip ''Gi0/1'' = ''Gi0/1''" by code_simp
  have r: "\<not> (\<exists>a b. py_strip ''Gi0/1'' = a @ ''-'' @ b
                    \<and> py_int (py_strip a) \<noteq> None \<and> py_int (py_strip b) \<noteq> None)"
    unfolding s by (auto simp: Cons_eq_append_conv)
  have p: "py_split CHR '','' ''10,Gi0/1, 20,30-32,31'' = [''10'', ''Gi0/1'', '' 20'', ''30-32'', ''31'']"
    by code_simp
  have v: "20 \<in> set (part_vlans '' 20'')" by code_simp
  have e: "parse_vlan_list ''10,Gi0/1, 20,30-32,31'' = [10, 20, 30, 31, 32]" by code_simp
  from parse_vlan_list_correct [of "''10,Gi0/1, 20,30-32,31''"] n r
  have d: "part_vlans ''Gi0/1'' = []" by blast
  from parse_vlan_list_correct [of "''10,Gi0/1, 20,30-32,31''"] p v
  have "20 \<in> set (parse_vlan_list ''10,Gi0/1, 20,30-32,31'')" by auto
  with n d v e show ?thesis by blast
qed

text \<open>
  C6 as stated fails: the parsers pass on the ids 0 and 5000 as the device text has them.
\<close>

theorem vlan_range_counterexample:
  "parse_vlan_list ''0,5000'' = [0, 5000]
   \<and> map vlan_id (parse_vlans ''0 zero active'') = [0]
   \<and> map vlan_id (parse_vlans ''5000 big active'') = [5000]"
  by code_simp

text \<open>
  C6, amended. Every VLAN id in a list returned by \<open>_parse_vlan_list\<close> and the
  \<open>vlan_id\<close> of every record returned by \<open>parse_vlans\<close> is a non-negative integer, for
  every input string; the parsers apply no check against the range 1 to 4094.
\<close>

theorem vlan_ids_nonnegative:
  "(\<forall>v \<in> set (parse_vlan_list s). 0 \<le> v) \<and> (\<forall>r \<in> set (parse_vlans output). 0 \<le> vlan_id r)"
proof (intro conjI ballI)
  fix v assume "v \<in> set (parse_vlan_list s)"
  then obtain p where "v \<in> set (part_vlans p)"
    by (auto simp: parse_vlan_list_set)
  then show "0 \<le> v" by (rule part_vlans_nonneg)
next
  fix r assume "r \<in> set (parse_vlans output)"
  then show "0 \<le> vlan_id r"
    unfolding parse_vlans_def by (rule scan_vlans_nonneg)
qed

theorem vlan_ids_nonnegative_witness:
  "parse_vlan_list ''3-5,+7'' = [3, 4, 5, 7] \<and> 0 \<le> last (parse_vlan_list ''3-5,+7'')
   \<and> parse_vlans ''10 users active'' = [\<lparr>vlan_id = 10, name = ''users'', status = ''active''\<rparr>]
   \<and> 0 \<le> vlan_id (hd (parse_vlans ''10 users active''))"
proof -
  have a: "parse_vlan_list ''3-5,+7'' = [3, 4, 5, 7]" by code_simp
  have b: "parse_vlans ''10 users active'' = [\<lparr>vlan_id = 10, name = ''users'', status = ''active''\<rparr>]"
    by code_simp
  from a have "last (parse_vlan_list ''3-5,+7'') \<in> set (parse_vlan_list ''3-5,+7'')" by simp
  with vlan_ids_nonnegative [of "''3-5,+7''" "''10 users active''"]
  have c: "0 \<le> last (parse_vlan_list ''3-5,+7'')" by blast
  from b have "hd (parse_vlans ''10 users active'') \<in> set (parse_vlans ''10 users active'')" by simp
  with vlan_ids_nonnegative [of "''3-5,+7''" "''10 users active''"]
  have d: "0 \<le> vlan_id (hd (parse_vlans ''10 users active''))" by blast
  from a b c d show ?thesis by blast
qed

section \<open>Properties of the crawl\<close>

text \<open>Rules to carry a property of the state through each loop.\<close>

lemma hostname_neighbor_config: "hostname (neighbor_config h n seed) = h"
  by (simp add: neighbor_config_def)

lemma queue_neighbors_rule:
  assumes "P s"
    and "\<And>s n h caps seed rest. \<lbrakk>P s; n \<in> set ns; remote_device n = Some h; h \<noteq> [];
            h \<notin> discovered_devices s; capabilities n = Some caps; is_switch_or_router caps;
            seed_devices cfg = seed # rest\<rbrakk>
          \<Longrightarrow> P (queue_put (neighbor_config h n seed, depth + 1) s)"
  shows "P (snd (queue_neighbors cfg depth ns s))"
  using assms
proof (induction ns arbitrary: s)
  case Nil
  then show ?case by simp
next
  case (Cons n ns)
  have step: "P (snd (queue_neighbors cfg depth ns s'))" if "P s'" for s'
    by (rule Cons.IH [OF that]) (rule Cons.prems(2), auto)
  show ?case
  proof (cases "remote_device n")
    case None
    with step [OF Cons.prems(1)] show ?thesis by simp
  next
    case h: (Some h)
    show ?thesis
    proof (cases "h = [] \<or> h \<in> discovered_devices s")
      case True
      with h step [OF Cons.prems(1)] show ?thesis by auto
    next
      case unseen: False
      show ?thesis
      proof (cases "capabilities n")
        case None
        with h unseen Cons.prems(1) show ?thesis by simp
      next
        case caps: (Some caps)
        show ?thesis
        proof (cases "is_switch_or_router caps")
          case False
          with h unseen caps step [OF Cons.prems(1)] show ?thesis by simp
        next
          case sw: True
          show ?thesis
          proof (cases "seed_devices cfg")
            case Nil
            with h unseen caps sw Cons.prems(1) show ?thesis by simp
          next
            case (Cons seed rest)
            have "P (queue_put (neighbor_config h n seed, depth + 1) s)"
              using Cons.prems(2) [OF Cons.prems(1) _ h _ _ caps sw Cons] unseen by simp
            from step [OF this] h unseen caps sw Cons show ?thesis by simp
          qed
        qed
      qed
    qed
  qed
qed

lemma process_discovery_queue_rule:
  assumes "P s"
    and "\<And>s. P s \<Longrightarrow> P (submit_tasks cfg s)"
    and "\<And>s ev. \<lbrakk>P s; futures s \<noteq> []\<rbrakk> \<Longrightarrow> P (complete_task cfg ev s)"
  shows "P (snd (process_discovery_queue cfg evs s))"
  using assms
proof (induction cfg evs s rule: process_discovery_queue.induct)
  case (1 cfg evs s)
  note P = "1.prems"(1) and sub = "1.prems"(2) and comp = "1.prems"(3)
  show ?case
  proof (cases "max_workers cfg \<le> 0")
    case True
    with P show ?thesis by (subst process_discovery_queue.simps) auto
  next
    case w: False
    show ?thesis
    proof (cases "discovery_queue s = [] \<and> futures s = []")
      case True
      with w P show ?thesis by (subst process_discovery_queue.simps) auto
    next
      case busy: False
      show ?thesis
      proof (cases "futures (submit_tasks cfg s) = []")
        case True
        have "P (snd (process_discovery_queue cfg evs (submit_tasks cfg s)))"
          by (rule "1.IH"(1) [OF w busy True]) (rule sub [OF P], fact sub, fact comp)
        with w busy True show ?thesis
          by (subst process_discovery_queue.simps) auto
      next
        case run: False
        show ?thesis
        proof (cases evs)
          case Nil
          with w busy run sub [OF P] show ?thesis
            by (subst process_discovery_queue.simps) auto
        next
          case (Cons ev evs')
          have "P (snd (process_discovery_queue cfg evs' (complete_task cfg ev (submit_tasks cfg s))))"
            by (rule "1.IH"(2) [OF w busy run Cons]) (rule comp [OF sub [OF P] run], fact sub, fact comp)
          with w busy run Cons show ?thesis
            by (subst process_discovery_queue.simps) auto
        qed
      qed
    qed
  qed
qed

lemma seed_queue_eq:
  "foldl (\<lambda>s seed_device. queue_put (seed_device, 0) s) s ds =
   s\<lparr>discovery_queue := discovery_queue s @ map (\<lambda>d. (d, 0)) ds,
     put_log := put_log s @ map (\<lambda>d. (d, 0)) ds\<rparr>"
  by (induction ds arbitrary: s) (simp_all add: queue_put_def)

lemma crawl_inv_seed: "crawl_inv cfg (seed_queue cfg initial_state)"
  by (simp add: crawl_inv_def seed_queue_def seed_queue_eq initial_state_def seed_puts_def)

lemma crawl_inv_submit: "crawl_inv cfg s \<Longrightarrow> crawl_inv cfg (submit_tasks cfg s)"
proof (rule submit_tasks_rule [where P = "crawl_inv cfg"], assumption)
  fix s dc depth rest
  assume "crawl_inv cfg s" "discovery_queue s = (dc, depth) # rest"
  then show "crawl_inv cfg (s\<lparr>discovery_queue := rest\<rparr>)"
    by (auto simp: crawl_inv_def)
next
  fix s dc depth rest
  assume inv: "crawl_inv cfg s" and q: "discovery_queue s = (dc, depth) # rest"
    and unseen: "hostname dc \<notin> discovered_devices s" and d: "depth < max_depth cfg"
  let ?s' = "s\<lparr>discovery_queue := rest,
       discovered_devices := insert (hostname dc) (discovered_devices s),
       futures := futures s @ [(dc, depth)],
       submit_log := submit_log s @ [(dc, depth)]\<rparr>"
  from inv q have put: "(dc, depth) \<in> set (put_log s)" by (auto simp: crawl_inv_def)
  from inv obtain nb where nb: "put_log s = seed_puts cfg @ nb"
    "\<forall>x \<in> set nb. 1 \<le> snd x \<and> snd x < max_depth cfg
        \<and> (\<exists>dc. (dc, snd x - 1) \<in> set (submit_log s))"
    by (auto simp: crawl_inv_def)
  have 1: "set (discovery_queue ?s') \<subseteq> set (put_log ?s')"
    using inv q by (auto simp: crawl_inv_def)
  have 2: "set (futures ?s') \<subseteq> set (submit_log ?s')"
    using inv by (auto simp: crawl_inv_def)
  have 3: "\<forall>x \<in> set (submit_log ?s'). snd x < max_depth cfg \<and> x \<in> set (put_log ?s')"
    using inv put d by (auto simp: crawl_inv_def)
  have 4: "\<forall>x \<in> set (put_log ?s'). 0 \<le> snd x"
    using inv by (auto simp: crawl_inv_def)
  have 5: "\<exists>nb. put_log ?s' = seed_puts cfg @ nb
          \<and> (\<forall>x \<in> set nb. 1 \<le> snd x \<and> snd x < max_depth cfg
                \<and> (\<exists>dc. (dc, snd x - 1) \<in> set (submit_log ?s')))"
    using nb by (intro exI [of _ nb]) auto
  have 6: "hostname ` fst ` set (submit_log ?s') = discovered_devices ?s'"
    using inv by (auto simp: crawl_inv_def)
  have "hostname dc \<notin> hostname ` fst ` set (submit_log s)"
    using inv unseen by (simp add: crawl_inv_def)
  then have 7: "distinct (map (hostname \<circ> fst) (submit_log ?s'))"
    using inv by (auto simp: crawl_inv_def image_iff)
  from 1 2 3 4 5 6 7 show "crawl_inv cfg ?s'"
    unfolding crawl_inv_def by blast
qed

lemma crawl_inv_put:
  assumes "crawl_inv cfg s" and "(dc, depth) \<in> set (submit_log s)" and "depth < max_depth cfg - 1"
  shows "crawl_inv cfg (queue_put (nc, depth + 1) s)"
proof -
  from assms(1) obtain nb where nb: "put_log s = seed_puts cfg @ nb"
    "\<forall>x \<in> set nb. 1 \<le> snd x \<and> snd x < max_depth cfg
        \<and> (\<exists>dc. (dc, snd x - 1) \<in> set (submit_log s))"
    by (auto simp: crawl_inv_def)
  from assms(1,2) have d0: "0 \<le> depth" by (fastforce simp: crawl_inv_def)
  let ?s' = "queue_put (nc, depth + 1) s"
  have 5: "\<exists>nb. put_log ?s' = seed_puts cfg @ nb
          \<and> (\<forall>x \<in> set nb. 1 \<le> snd x \<and> snd x < max_depth cfg
                \<and> (\<exists>dc. (dc, snd x - 1) \<in> set (submit_log ?s')))"
    using nb d0 assms(2,3) by (intro exI [of _ "nb @ [(nc, depth + 1)]"]) (auto simp: queue_put_def)
  have rest: "set (discovery_queue ?s') \<subseteq> set (put_log ?s')"
    "set (futures ?s') \<subseteq> set (submit_log ?s')"
    "\<forall>x \<in> set (submit_log ?s'). snd x < max_depth cfg \<and> x \<in> set (put_log ?s')"
    "\<forall>x \<in> set (put_log ?s'). 0 \<le> snd x"
    "hostname ` fst ` set (submit_log ?s') = discovered_devices ?s'"
    "distinct (map (hostname \<circ> fst) (submit_log ?s'))"
    using assms(1) d0 by (auto simp: crawl_inv_def queue_put_def)
  with 5 show ?thesis unfolding crawl_inv_def by blast
qed

lemma submit_log_queue_put: "submit_log (queue_put item s) = submit_log s"
  by (simp add: queue_put_def)

lemma crawl_inv_process:
  assumes "crawl_inv cfg s" and "(dc, depth) \<in> set (submit_log s)"
  shows "crawl_inv cfg (snd (process_discovered_device cfg info depth s))"
proof -
  let ?s1 = "s\<lparr>device_data := (device_data s)(info_hostname info \<mapsto> info)\<rparr>"
  from assms have s1: "crawl_inv cfg ?s1 \<and> (dc, depth) \<in> set (submit_log ?s1)"
    by (simp add: crawl_inv_def)
  show ?thesis
  proof (cases "depth < max_depth cfg - 1")
    case False
    with s1 show ?thesis by (simp add: process_discovered_device_def)
  next
    case True
    have "crawl_inv cfg (snd (queue_neighbors cfg depth (neighbors info) ?s1))
          \<and> (dc, depth) \<in> set (submit_log (snd (queue_neighbors cfg depth (neighbors info) ?s1)))"
      (is "?Q (snd (queue_neighbors cfg depth (neighbors info) ?s1))")
    proof (rule queue_neighbors_rule [where P = ?Q])
      show "?Q ?s1" by (rule s1)
    next
      fix s n h caps seed rest
      assume "?Q s"
      then show "?Q (queue_put (neighbor_config h n seed, depth + 1) s)"
        using True crawl_inv_put [of cfg s dc depth] by (auto simp: submit_log_queue_put)
    qed
    with True show ?thesis by (simp add: process_discovered_device_def)
  qed
qed

lemma crawl_inv_complete:
  assumes "crawl_inv cfg s" and "futures s \<noteq> []"
  shows "crawl_inv cfg (complete_task cfg ev s)"
proof -
  define i where "i = fst ev mod length (futures s)"
  obtain dc depth where t: "futures s ! i = (dc, depth)" by (cases "futures s ! i")
  let ?s1 = "s\<lparr>futures := take i (futures s) @ drop (Suc i) (futures s)\<rparr>"
  from assms(2) have i: "i < length (futures s)" by (simp add: i_def)
  then have "(dc, depth) \<in> set (futures s)" using t by (metis nth_mem)
  with assms(1) have sub: "(dc, depth) \<in> set (submit_log s)" by (auto simp: crawl_inv_def)
  have "set (take i (futures s) @ drop (Suc i) (futures s)) \<subseteq> set (futures s)"
    by (auto dest: in_set_takeD in_set_dropD)
  with assms(1) have inv1: "crawl_inv cfg ?s1" by (auto simp: crawl_inv_def)
  show ?thesis
  proof (cases "snd ev")
    case (Failed msg)
    with inv1 t show ?thesis
      by (simp add: complete_task_def i_def [symmetric] crawl_inv_def)
  next
    case (Collected info)
    from crawl_inv_process [OF inv1, of dc depth info] sub Collected t show ?thesis
      by (simp add: complete_task_def i_def [symmetric])
  qed
qed

lemma crawl_inv_start: "crawl_inv cfg (snd (start_discovery cfg evs))"
  unfolding start_discovery_def
  by (rule process_discovery_queue_rule [where P = "crawl_inv cfg"])
     (simp_all add: crawl_inv_seed crawl_inv_submit crawl_inv_complete)

lemma queue_neighbors_puts:
  "\<exists>new. put_log (snd (queue_neighbors cfg depth ns s)) = put_log s @ new
     \<and> discovered_devices (snd (queue_neighbors cfg depth ns s)) = discovered_devices s
     \<and> (\<forall>x \<in> set new. snd x = depth + 1 \<and> hostname (fst x) \<notin> discovered_devices s
           \<and> (\<exists>n \<in> set ns. remote_device n = Some (hostname (fst x))
                 \<and> (\<exists>caps. capabilities n = Some caps \<and> is_switch_or_router caps)))"
  (is "?Q (snd (queue_neighbors cfg depth ns s))")
proof (rule queue_neighbors_rule [where P = ?Q])
  show "?Q s" by simp
next
  fix s' n h caps seed rest
  assume q: "?Q s'" and n: "n \<in> set ns" "remote_device n = Some h" "h \<notin> discovered_devices s'"
    "capabilities n = Some caps" "is_switch_or_router caps"
  from q obtain new where new: "put_log s' = put_log s @ new"
    "discovered_devices s' = discovered_devices s"
    "\<forall>x \<in> set new. snd x = depth + 1 \<and> hostname (fst x) \<notin> discovered_devices s
           \<and> (\<exists>n \<in> set ns. remote_device n = Some (hostname (fst x))
                 \<and> (\<exists>caps. capabilities n = Some caps \<and> is_switch_or_router caps))"
    by blast
  show "?Q (queue_put (neighbor_config h n seed, depth + 1) s')"
    using new n
    by (intro exI [of _ "new @ [(neighbor_config h n seed, depth + 1)]"])
       (auto simp: queue_put_def hostname_neighbor_config)
qed

lemma process_discovered_device_puts:
  "\<exists>new. put_log (snd (process_discovered_device cfg info depth s)) = put_log s @ new
     \<and> discovered_devices (snd (process_discovered_device cfg info depth s)) = discovered_devices s
     \<and> (\<forall>x \<in> set new. snd x = depth + 1 \<and> depth < max_depth cfg - 1
           \<and> hostname (fst x) \<notin> discovered_devices s
           \<and> (\<exists>n \<in> set (neighbors info). remote_device n = Some (hostname (fst x))
                 \<and> (\<exists>caps. capabilities n = Some caps \<and> is_switch_or_router caps)))"
proof (cases "depth < max_depth cfg - 1")
  case False
  then show ?thesis by (simp add: process_discovered_device_def)
next
  case True
  from queue_neighbors_puts [of cfg depth "neighbors info"
      "s\<lparr>device_data := (device_data s)(info_hostname info \<mapsto> info)\<rparr>"] True
  show ?thesis by (simp add: process_discovered_device_def)
qed


text \<open>
  C1 as stated fails for a depth limit of 0 (which the configuration file may set): the
  seeds are put on the queue at depth 0 all the same, and skipped when taken off.
\<close>

theorem depth_limit_counterexample:
  "put_log (snd (start_discovery (two_seeds 0) [])) = [(seed_a, 0), (seed_b, 0)]
   \<and> max_depth (two_seeds 0) = 0
   \<and> submit_log (snd (start_discovery (two_seeds 0) [])) = []"
  by code_simp

lemma crawl_inv_putsD:
  assumes "crawl_inv cfg s"
  shows "\<exists>nb. put_log s = seed_puts cfg @ nb
          \<and> (\<forall>x \<in> set nb. 1 \<le> snd x \<and> snd x < max_depth cfg
                \<and> (\<exists>dc. (dc, snd x - 1) \<in> set (submit_log s)))"
  using assms unfolding crawl_inv_def by simp

lemma crawl_inv_submitD:
  assumes "crawl_inv cfg s" and "x \<in> set (submit_log s)"
  shows "snd x < max_depth cfg" and "x \<in> set (put_log s)"
  using assms unfolding crawl_inv_def by simp_all

lemma crawl_inv_distinctD:
  assumes "crawl_inv cfg s"
  shows "distinct (map (hostname \<circ> fst) (submit_log s))"
    and "hostname ` fst ` set (submit_log s) = discovered_devices s"
  using assms unfolding crawl_inv_def by simp_all

lemma start_puts:
  "\<exists>nb. put_log (snd (start_discovery cfg evs)) = seed_puts cfg @ nb
     \<and> (\<forall>x \<in> set nb. 1 \<le> snd x \<and> snd x < max_depth cfg
           \<and> (\<exists>dc. (dc, snd x - 1) \<in> set (submit_log (snd (start_discovery cfg evs)))))"
  by (rule crawl_inv_putsD [OF crawl_inv_start])

lemma start_seed_prefix:
  "take (length (seed_devices cfg)) (put_log (snd (start_discovery cfg evs)))
     = map (\<lambda>d. (d, 0)) (seed_devices cfg)"
proof -
  from start_puts [of cfg evs]
  obtain nb where "put_log (snd (start_discovery cfg evs)) = seed_puts cfg @ nb"
    by blast
  then show ?thesis by (simp add: seed_puts_def)
qed

lemma start_submit_depth:
  "x \<in> set (submit_log (snd (start_discovery cfg evs))) \<Longrightarrow> snd x < max_depth cfg"
  by (rule crawl_inv_submitD(1) [OF crawl_inv_start])

lemma start_neighbor_depth:
  assumes "x \<in> set (drop (length (seed_devices cfg)) (put_log (snd (start_discovery cfg evs))))"
  shows "snd x < max_depth cfg
         \<and> (\<exists>dc d. (dc, d) \<in> set (submit_log (snd (start_discovery cfg evs)))
               \<and> snd x = d + 1 \<and> d < max_depth cfg - 1)"
proof -
  from start_puts [of cfg evs]
  obtain nb where nb: "put_log (snd (start_discovery cfg evs)) = seed_puts cfg @ nb"
    and nbd: "\<forall>x \<in> set nb. 1 \<le> snd x \<and> snd x < max_depth cfg
                \<and> (\<exists>dc. (dc, snd x - 1) \<in> set (submit_log (snd (start_discovery cfg evs))))"
    by blast
  from assms nb have "x \<in> set nb" by (simp add: seed_puts_def)
  from nbd [rule_format, OF this] obtain dc where
    dc: "(dc, snd x - 1) \<in> set (submit_log (snd (start_discovery cfg evs)))"
    and lt: "snd x < max_depth cfg" by blast
  have "(dc, snd x - 1) \<in> set (submit_log (snd (start_discovery cfg evs)))
               \<and> snd x = (snd x - 1) + 1 \<and> snd x - 1 < max_depth cfg - 1"
    using dc lt by simp
  then have "\<exists>dc d. (dc, d) \<in> set (submit_log (snd (start_discovery cfg evs)))
               \<and> snd x = d + 1 \<and> d < max_depth cfg - 1" by blast
  with lt show ?thesis by simp
qed

lemma start_all_depth:
  assumes "1 \<le> max_depth cfg" and "x \<in> set (put_log (snd (start_discovery cfg evs)))"
  shows "snd x < max_depth cfg"
proof -
  from start_puts [of cfg evs]
  obtain nb where nb: "put_log (snd (start_discovery cfg evs)) = seed_puts cfg @ nb"
    and nbd: "\<forall>x \<in> set nb. 1 \<le> snd x \<and> snd x < max_depth cfg
                \<and> (\<exists>dc. (dc, snd x - 1) \<in> set (submit_log (snd (start_discovery cfg evs))))"
    by blast
  from assms(2) nb have "x \<in> set (seed_puts cfg) \<or> x \<in> set nb" by simp
  then show ?thesis
  proof
    assume "x \<in> set (seed_puts cfg)"
    then have "snd x = 0" by (auto simp: seed_puts_def)
    with assms(1) show ?thesis by simp
  next
    assume "x \<in> set nb"
    from nbd [rule_format, OF this] show ?thesis by simp
  qed
qed

lemma start_depth_one:
  assumes "max_depth cfg = 1"
  shows "put_log (snd (start_discovery cfg evs)) = map (\<lambda>d. (d, 0)) (seed_devices cfg)"
    and "fst ` set (submit_log (snd (start_discovery cfg evs))) \<subseteq> set (seed_devices cfg)"
proof -
  from start_puts [of cfg evs]
  obtain nb where nb: "put_log (snd (start_discovery cfg evs)) = seed_puts cfg @ nb"
    and nbd: "\<forall>x \<in> set nb. 1 \<le> snd x \<and> snd x < max_depth cfg
                \<and> (\<exists>dc. (dc, snd x - 1) \<in> set (submit_log (snd (start_discovery cfg evs))))"
    by blast
  have "nb = []"
  proof (cases nb)
    case (Cons x xs)
    then have "x \<in> set nb" by simp
    from nbd [rule_format, OF this] assms have "1 \<le> snd x \<and> snd x < 1" by simp
    then show ?thesis by linarith
  qed simp
  with nb show p: "put_log (snd (start_discovery cfg evs)) = map (\<lambda>d. (d, 0)) (seed_devices cfg)"
    by (simp add: seed_puts_def)
  show "fst ` set (submit_log (snd (start_discovery cfg evs))) \<subseteq> set (seed_devices cfg)"
  proof
    fix dc assume "dc \<in> fst ` set (submit_log (snd (start_discovery cfg evs)))"
    then obtain x where x: "x \<in> set (submit_log (snd (start_discovery cfg evs)))" "dc = fst x"
      by blast
    from crawl_inv_submitD(2) [OF crawl_inv_start x(1)] p x(2)
    show "dc \<in> set (seed_devices cfg)" by auto
  qed
qed

lemma process_no_put:
  "\<not> depth < max_depth cfg - 1 \<Longrightarrow>
   put_log (snd (process_discovered_device cfg info depth s)) = put_log s"
  by (simp add: process_discovered_device_def)

text \<open>
  C1, amended. In every crawl with \<open>max_depth = N\<close> the seeds enter the queue at depth
  0; an item taken off the queue at depth \<open>d\<close> is submitted for collection only if
  \<open>d < N\<close>; every neighbour put on the queue is at depth \<open>d + 1\<close> for a device
  submitted at a depth \<open>d < N - 1\<close>, so no neighbour is ever enqueued at a depth
  \<open>\<ge> N\<close>; for \<open>N \<ge> 1\<close> no item of the queue at all has a depth \<open>\<ge> N\<close>; with \<open>N = 1\<close>
  no neighbour is enqueued and only seed devices are submitted. Processing a device
  collected at a depth \<open>d\<close> that is not below \<open>N - 1\<close> puts nothing on the queue.
\<close>

theorem crawl_depth_limit:
  "take (length (seed_devices cfg)) (put_log (snd (start_discovery cfg evs)))
     = map (\<lambda>d. (d, 0)) (seed_devices cfg)
   \<and> (\<forall>x \<in> set (submit_log (snd (start_discovery cfg evs))). snd x < max_depth cfg)
   \<and> (\<forall>x \<in> set (drop (length (seed_devices cfg)) (put_log (snd (start_discovery cfg evs)))).
         snd x < max_depth cfg
         \<and> (\<exists>dc d. (dc, d) \<in> set (submit_log (snd (start_discovery cfg evs)))
               \<and> snd x = d + 1 \<and> d < max_depth cfg - 1))
   \<and> (1 \<le> max_depth cfg \<longrightarrow>
        (\<forall>x \<in> set (put_log (snd (start_discovery cfg evs))). snd x < max_depth cfg))
   \<and> (max_depth cfg = 1 \<longrightarrow>
        put_log (snd (start_discovery cfg evs)) = map (\<lambda>d. (d, 0)) (seed_devices cfg)
        \<and> fst ` set (submit_log (snd (start_discovery cfg evs))) \<subseteq> set (seed_devices cfg))
   \<and> (\<not> depth < max_depth cfg - 1 \<longrightarrow>
        put_log (snd (process_discovered_device cfg info depth s)) = put_log s)"
proof (intro conjI ballI impI)
  show "take (length (seed_devices cfg)) (put_log (snd (start_discovery cfg evs)))
     = map (\<lambda>d. (d, 0)) (seed_devices cfg)" by (rule start_seed_prefix)
next
  fix x assume "x \<in> set (submit_log (snd (start_discovery cfg evs)))"
  then show "snd x < max_depth cfg" by (rule start_submit_depth)
next
  fix x assume x: "x \<in> set (drop (length (seed_devices cfg)) (put_log (snd (start_discovery cfg evs))))"
  from start_neighbor_depth [OF x] show "snd x < max_depth cfg" by (rule conjunct1)
  from start_neighbor_depth [OF x]
  show "\<exists>dc d. (dc, d) \<in> set (submit_log (snd (start_discovery cfg evs)))
               \<and> snd x = d + 1 \<and> d < max_depth cfg - 1" by (rule conjunct2)
next
  fix x assume "1 \<le> max_depth cfg" "x \<in> set (put_log (snd (start_discovery cfg evs)))"
  then show "snd x < max_depth cfg" by (rule start_all_depth)
next
  assume one: "max_depth cfg = 1"
  show "put_log (snd (start_discovery cfg evs)) = map (\<lambda>d. (d, 0)) (seed_devices cfg)"
    by (rule start_depth_one(1) [OF one])
  show "fst ` set (submit_log (snd (start_discovery cfg evs))) \<subseteq> set (seed_devices cfg)"
    by (rule start_depth_one(2) [OF one])
next
  assume "\<not> depth < max_depth cfg - 1"
  then show "put_log (snd (process_discovered_device cfg info depth s)) = put_log s"
    by (rule process_no_put)
qed

theorem crawl_depth_limit_witness:
  "put_log (snd (start_discovery (two_seeds 2) [(0, Collected info_a), (0, Collected info_b)]))
     = [(seed_a, 0), (seed_b, 0), (config_c, 1), (config_c, 1)]
   \<and> submit_log (snd (start_discovery (two_seeds 2) [(0, Collected info_a), (0, Collected info_b)]))
     = [(seed_a, 0), (seed_b, 0), (config_c, 1)]
   \<and> (1::int) \<le> max_depth (two_seeds 2)
   \<and> snd (config_c, 1::int) < max_depth (two_seeds 2)
   \<and> max_depth (two_seeds 1) = 1
   \<and> put_log (snd (start_discovery (two_seeds 1) [(0, Collected info_a), (0, Collected info_b)]))
     = [(seed_a, 0), (seed_b, 0)]
   \<and> \<not> (0::int) < max_depth (two_seeds 1) - 1
   \<and> put_log (snd (process_discovered_device (two_seeds 1) info_a 0 initial_state))
     = put_log initial_state"
proof -
  let ?evs = "[(0, Collected info_a), (0, Collected info_b)]"
  note t2 = crawl_depth_limit [of "two_seeds 2" ?evs]
  note t1 = crawl_depth_limit [of "two_seeds 1" ?evs 0 info_a initial_state]
  note all = t2 [THEN conjunct2, THEN conjunct2, THEN conjunct2, THEN conjunct1]
    and one = t1 [THEN conjunct2, THEN conjunct2, THEN conjunct2, THEN conjunct2, THEN conjunct1]
    and last = t1 [THEN conjunct2, THEN conjunct2, THEN conjunct2, THEN conjunct2, THEN conjunct2]
  have p: "put_log (snd (start_discovery (two_seeds 2) ?evs))
     = [(seed_a, 0), (seed_b, 0), (config_c, 1), (config_c, 1)]" by code_simp
  have q: "submit_log (snd (start_discovery (two_seeds 2) ?evs))
     = [(seed_a, 0), (seed_b, 0), (config_c, 1)]" by code_simp
  have n2: "(1::int) \<le> max_depth (two_seeds 2)" by (simp add: two_seeds_def)
  have n1: "max_depth (two_seeds 1) = 1" by (simp add: two_seeds_def)
  have g: "\<not> (0::int) < max_depth (two_seeds 1) - 1" by (simp add: two_seeds_def)
  have "(config_c, 1) \<in> set (put_log (snd (start_discovery (two_seeds 2) ?evs)))"
    by (simp add: p)
  with all [THEN mp, OF n2]
  have a: "snd (config_c, 1::int) < max_depth (two_seeds 2)" by (rule bspec)
  have "put_log (snd (start_discovery (two_seeds 1) ?evs))
     = map (\<lambda>d. (d, 0)) (seed_devices (two_seeds 1))"
    by (rule one [THEN mp, OF n1, THEN conjunct1])
  also have "\<dots> = [(seed_a, 0), (seed_b, 0)]" by (simp add: two_seeds_def)
  finally have b: "put_log (snd (start_discovery (two_seeds 1) ?evs)) = [(seed_a, 0), (seed_b, 0)]" .
  have c: "put_log (snd (process_discovered_device (two_seeds 1) info_a 0 initial_state))
     = put_log initial_state"
    by (rule last [THEN mp, OF g])
  show ?thesis
    by (intro conjI) (fact p, fact q, fact n2, fact a, fact n1, fact b, fact g, fact c)
qed

lemma start_collects_once:
  "distinct (map (hostname \<circ> fst) (submit_log (snd (start_discovery cfg evs))))"
  "hostname ` fst ` set (submit_log (snd (start_discovery cfg evs)))
     = discovered_devices (snd (start_discovery cfg evs))"
  by (rule crawl_inv_distinctD [OF crawl_inv_start])+

lemma process_keeps_discovered:
  "discovered_devices (snd (process_discovered_device cfg info depth s)) = discovered_devices s"
  using process_discovered_device_puts [of cfg info depth s] by blast

lemma process_puts_unseen:
  "\<exists>new. put_log (snd (process_discovered_device cfg info depth s)) = put_log s @ new
     \<and> (\<forall>x \<in> set new. hostname (fst x) \<notin> discovered_devices s)"
proof -
  from process_discovered_device_puts [of cfg info depth s] obtain new where
    "put_log (snd (process_discovered_device cfg info depth s)) = put_log s @ new"
    "\<forall>x \<in> set new. hostname (fst x) \<notin> discovered_devices s"
    by blast
  then show ?thesis by blast
qed




text \<open>
  C2 as stated fails: a host is marked as discovered when it is taken off the queue, not
  when it is put on it, so the switch \<open>C\<close> that both seeds report is enqueued twice.
\<close>

theorem enqueue_once_counterexample:
  "put_log (snd (start_discovery (two_seeds 2) [(0, Collected info_a), (0, Collected info_b)]))
     = [(seed_a, 0), (seed_b, 0), (config_c, 1), (config_c, 1)]
   \<and> put_log (snd (process_discovered_device (two_seeds 2) info_a 0 initial_state))
     = [(config_c, 1)]
   \<and> ''C'' \<notin> discovered_devices (snd (process_discovered_device (two_seeds 2) info_a 0 initial_state))"
  by code_simp

text \<open>
  C2, amended. Membership in \<open>discovered_devices\<close> is checked, not set, when a
  neighbour is enqueued: a neighbour is put on the queue only if its host is not yet
  discovered, and processing a collected device leaves the set as it is. It is checked
  and set when an item is taken off the queue and submitted: the discovered hosts are
  exactly the hosts submitted for collection, and each host is submitted at most once
  per crawl.
\<close>

theorem host_collected_once:
  "distinct (map (hostname \<circ> fst) (submit_log (snd (start_discovery cfg evs))))
   \<and> hostname ` fst ` set (submit_log (snd (start_discovery cfg evs)))
        = discovered_devices (snd (start_discovery cfg evs))
   \<and> discovered_devices (snd (process_discovered_device cfg info depth s)) = discovered_devices s
   \<and> (\<exists>new. put_log (snd (process_discovered_device cfg info depth s)) = put_log s @ new
         \<and> (\<forall>x \<in> set new. hostname (fst x) \<notin> discovered_devices s))"
  by (intro conjI start_collects_once process_keeps_discovered process_puts_unseen)

theorem host_collected_once_witness:
  "submit_log (snd (start_discovery (two_seeds 2) [(0, Collected info_a), (0, Collected info_b)]))
     = [(seed_a, 0), (seed_b, 0), (config_c, 1)]
   \<and> distinct (map (hostname \<circ> fst) [(seed_a, 0::int), (seed_b, 0), (config_c, 1)])
   \<and> put_log (snd (process_discovered_device (two_seeds 2) info_a 0 initial_state))
        = put_log initial_state @ [(config_c, 1)]
   \<and> hostname (fst (config_c, 1::int)) \<notin> discovered_devices initial_state"
proof -
  let ?evs = "[(0, Collected info_a), (0, Collected info_b)]"
  note t = host_collected_once [of "two_seeds 2" ?evs info_a 0 initial_state]
  have q: "submit_log (snd (start_discovery (two_seeds 2) ?evs))
     = [(seed_a, 0), (seed_b, 0), (config_c, 1)]" by code_simp
  have p: "put_log (snd (process_discovered_device (two_seeds 2) info_a 0 initial_state))
        = put_log initial_state @ [(config_c, 1)]" by code_simp
  from t [THEN conjunct1]
  have d: "distinct (map (hostname \<circ> fst) [(seed_a, 0::int), (seed_b, 0), (config_c, 1)])"
    by (simp only: q)
  from t [THEN conjunct2, THEN conjunct2, THEN conjunct2] obtain new where
    n: "put_log (snd (process_discovered_device (two_seeds 2) info_a 0 initial_state))
          = put_log initial_state @ new"
    and u: "\<forall>x \<in> set new. hostname (fst x) \<notin> discovered_devices initial_state"
    by blast
  from n p have "new = [(config_c, 1)]" by simp
  with u have h: "hostname (fst (config_c, 1::int)) \<notin> discovered_devices initial_state"
    by simp
  show ?thesis by (intro conjI) (fact q, fact d, fact p, fact h)
qed




end
